theory Spec2Isabelle
  imports Complex_Main "HOL-Library.Word"
begin

section \<open>Informational Earth-Likeness Score: the embedding\<close>

text \<open>
  The script \<^verbatim>\<open>informational_earth_likeness_score.py\<close> has three functions,
  \<^verbatim>\<open>normalize\<close>, \<^verbatim>\<open>compute_IELS\<close> and \<^verbatim>\<open>generate_random_system\<close>, and a main block.

  Numbers. The script computes on IEEE double-precision floats. The scalars of
  \<^verbatim>\<open>compute_IELS\<close> are modelled as doubles: finite numbers, the two infinities and NaN,
  every product and the power rounded to nearest, ties to even, with overflow to an
  infinity and gradual underflow to zero. The arrays of \<^verbatim>\<open>normalize\<close> and of the generator
  are modelled over the type \<^typ>\<open>real\<close>: what is proved of them is about exact arithmetic.
  The literal \<^verbatim>\<open>1e-15\<close> is the real number \<open>1 / 10 ^ 15\<close>. An array is a list.

  Outcomes that are no array of real numbers are values of \<open>np_error\<close>:
  \<^item> \<open>NegativeDimensions\<close>: the \<^verbatim>\<open>ValueError\<close> numpy raises when an array of negative
    length is requested;
  \<^item> \<open>ZeroSizeReduction\<close>: the \<^verbatim>\<open>ValueError\<close> raised by \<^verbatim>\<open>np.max\<close> on an empty array;
  \<^item> \<open>DivideByZero\<close>: a division by zero, which numpy reports with a warning and answers
    with an infinity or a NaN;
  \<^item> \<open>InvalidValue\<close>: the mean of an empty array, which numpy reports with a warning and
    answers with NaN.
\<close>

datatype np_error = NegativeDimensions | ZeroSizeReduction | DivideByZero | InvalidValue

text \<open>
  An exception leaves the function that is running: the first error of a sequence of
  steps is the result, and the steps after it do not run.
\<close>

definition and_then :: "np_error + 'a \<Rightarrow> ('a \<Rightarrow> np_error + 'b) \<Rightarrow> np_error + 'b" where
  "and_then r f = (case r of Inl e \<Rightarrow> Inl e | Inr v \<Rightarrow> f v)"

subsection \<open>normalize\<close>

definition eps :: real where
  "eps = 1 / 10 ^ 15"

text \<open>\<^verbatim>\<open>np.clip(x, lo, None)\<close>: the lower bound only.\<close>

definition clip :: "real \<Rightarrow> real list \<Rightarrow> real list" where
  "clip lo x = map (max lo) x"

text \<open>\<^verbatim>\<open>np.max(x)\<close>: a reduction with no identity, so the empty array is an error.\<close>

fun np_max :: "real list \<Rightarrow> np_error + real" where
  "np_max [] = Inl ZeroSizeReduction"
| "np_max (v # vs) = Inr (fold max vs v)"

text \<open>\<^verbatim>\<open>x / d\<close> for an array \<^verbatim>\<open>x\<close> and a scalar \<^verbatim>\<open>d\<close>.\<close>

definition np_divide :: "real list \<Rightarrow> real \<Rightarrow> np_error + real list" where
  "np_divide x d = (if d = 0 then Inl DivideByZero else Inr (map (\<lambda>v. v / d) x))"

text \<open>
  \<^verbatim>\<open>
  def normalize(x):
      x = np.clip(x, 1e-15, None)
      return x / np.max(x)
  \<close>
\<close>

definition normalize :: "real list \<Rightarrow> np_error + real list" where
  "normalize x =
     (let x1 = clip eps x
      in and_then (np_max x1) (\<lambda>m. np_divide x1 m))"

subsection \<open>Doubles\<close>

text \<open>
  A double is a finite number, one of the two infinities, or NaN. A finite double is
  written \<open>Fin r\<close> with the real number \<open>r\<close> it denotes; the arithmetic below only ever
  produces representable numbers. The sign of a zero is not modelled.
\<close>

datatype double = Fin real | PInf | NInf | NaN

text \<open>Rounding to the nearest integer, ties to the even one.\<close>

definition rne :: "real \<Rightarrow> int" where
  "rne t =
     (let f = \<lfloor>t\<rfloor>; d = t - of_int f
      in if d < 1 / 2 then f else if 1 / 2 < d then f + 1 else if even f then f else f + 1)"

text \<open>
  Rounding a real number to binary64, with the exponent not bounded above. \<open>binade x\<close> is
  the exponent of \<open>x\<close>, at least that of the least normal number: below it the spacing of
  the doubles stays \<open>2 powr (- 1074)\<close> (gradual underflow). \<open>quantum x\<close> is the spacing of the
  doubles around \<open>x\<close>: 53 bits of significand.
\<close>

definition binade :: "real \<Rightarrow> int" where
  "binade x = max \<lfloor>log 2 \<bar>x\<bar>\<rfloor> (- 1022)"

definition quantum :: "real \<Rightarrow> real" where
  "quantum x = 2 powr of_int (binade x - 52)"

definition round_fin :: "real \<Rightarrow> real" where
  "round_fin x = (if x = 0 then 0 else of_int (rne (x / quantum x)) * quantum x)"

text \<open>
  \<open>rnd x\<close> is the double an operation with exact result \<open>x\<close> returns: the rounded number, or
  an infinity when it lies beyond the largest double.
\<close>

definition rnd :: "real \<Rightarrow> double" where
  "rnd x =
     (let y = round_fin x
      in if 2 ^ 1024 \<le> y then PInf else if y \<le> - (2 ^ 1024) then NInf else Fin y)"

text \<open>
  The product of two doubles. NaN is contagious; a product with an infinity is an
  infinity of the sign of the product, and NaN when the other factor is zero.
\<close>

definition dsgn :: "double \<Rightarrow> real" where
  "dsgn x = (case x of Fin a \<Rightarrow> sgn a | PInf \<Rightarrow> 1 | NInf \<Rightarrow> - 1 | NaN \<Rightarrow> 0)"

definition inf_of_sign :: "real \<Rightarrow> double" where
  "inf_of_sign s = (if s = 0 then NaN else if 0 < s then PInf else NInf)"

definition fmul :: "double \<Rightarrow> double \<Rightarrow> double" where
  "fmul x y =
     (if x = NaN \<or> y = NaN then NaN
      else case (x, y) of
             (Fin a, Fin b) \<Rightarrow> rnd (a * b)
           | _ \<Rightarrow> inf_of_sign (dsgn x * dsgn y))"

text \<open>
  \<^verbatim>\<open>x ** 0.25\<close>, taken as correctly rounded. A negative finite base has no real fourth
  root (numpy answers NaN, Python's own floats answer a complex number); the power of
  either infinity is \<open>+inf\<close>.
\<close>

definition power_quarter :: "double \<Rightarrow> double" where
  "power_quarter x =
     (case x of
        Fin a \<Rightarrow> (if a < 0 then NaN else rnd (a powr (1 / 4)))
      | PInf \<Rightarrow> PInf
      | NInf \<Rightarrow> PInf
      | NaN \<Rightarrow> NaN)"


definition is_finite :: "double \<Rightarrow> bool" where
  "is_finite x = (case x of Fin a \<Rightarrow> True | PInf \<Rightarrow> False | NInf \<Rightarrow> False | NaN \<Rightarrow> False)"


subsection \<open>compute_IELS\<close>

text \<open>
  \<^verbatim>\<open>
  def compute_IELS(S, R, C, E):
      return (S * R * C * E) ** 0.25
  \<close>
  The product is evaluated from the left, each partial product rounded.
\<close>

definition compute_IELS :: "double \<Rightarrow> double \<Rightarrow> double \<Rightarrow> double \<Rightarrow> double" where
  "compute_IELS S R C E = power_quarter (fmul (fmul (fmul S R) C) E)"

subsection \<open>The random generator\<close>

text \<open>
  \<^verbatim>\<open>np.random.default_rng\<close> and \<^verbatim>\<open>Generator.random\<close> belong to numpy, not to the
  script. The bit generator behind them (PCG64 and its seeding) is a parameter \<open>G\<close> of the
  model: how a state is made from a seed, how it is made from the entropy \<open>'e\<close> of the
  operating system when no seed is given, and how one 64-bit output is drawn from a state.
  The theorems hold for every such \<open>G\<close>.
\<close>

record ('e, 's) bit_generator =
  from_seed :: "nat \<Rightarrow> 's"
  from_entropy :: "'e \<Rightarrow> 's"
  next_uint64 :: "'s \<Rightarrow> 64 word \<times> 's"

text \<open>\<^verbatim>\<open>np.random.default_rng(seed)\<close>: the entropy is read only when \<^verbatim>\<open>seed\<close> is \<^verbatim>\<open>None\<close>.\<close>

definition default_rng :: "('e, 's) bit_generator \<Rightarrow> nat option \<Rightarrow> 'e \<Rightarrow> 's" where
  "default_rng G seed env =
     (case seed of None \<Rightarrow> from_entropy G env | Some k \<Rightarrow> from_seed G k)"

text \<open>One double in \<open>[0, 1)\<close>: the upper 53 bits of a 64-bit output, scaled by \<open>2 ^ 53\<close>.\<close>

definition next_double :: "('e, 's) bit_generator \<Rightarrow> 's \<Rightarrow> real \<times> 's" where
  "next_double G st =
     (let (w, st') = next_uint64 G st
      in (real (unat (drop_bit 11 w)) / 2 ^ 53, st'))"

fun draw :: "('e, 's) bit_generator \<Rightarrow> nat \<Rightarrow> 's \<Rightarrow> real list \<times> 's" where
  "draw G 0 st = ([], st)"
| "draw G (Suc k) st =
     (let (v, st1) = next_double G st;
          (vs, st2) = draw G k st1
      in (v # vs, st2))"

text \<open>
  \<^verbatim>\<open>rng.random(n)\<close>: \<open>n\<close> doubles and the advanced state. A negative \<open>n\<close> raises; \<open>n = 0\<close>
  gives the empty array.
\<close>

definition rng_random ::
  "('e, 's) bit_generator \<Rightarrow> int \<Rightarrow> 's \<Rightarrow> np_error + (real list \<times> 's)" where
  "rng_random G n st = (if n < 0 then Inl NegativeDimensions else Inr (draw G (nat n) st))"

subsection \<open>generate_random_system\<close>

text \<open>
  \<^verbatim>\<open>
  def generate_random_system(n=1000):
      rng = np.random.default_rng(42)
      S = normalize(rng.random(n))
      R = normalize(rng.random(n))
      C = normalize(rng.random(n))
      E = normalize(rng.random(n))
      return S, R, C, E
  \<close>
  \<open>env\<close> is the entropy of the operating system at the time of the call.
\<close>

definition generate_random_system ::
  "('e, 's) bit_generator \<Rightarrow> 'e \<Rightarrow> int
     \<Rightarrow> np_error + (real list \<times> real list \<times> real list \<times> real list)" where
  "generate_random_system G env n =
     (let rng = default_rng G (Some 42) env
      in and_then (rng_random G n rng) (\<lambda>(s, rng1).
         and_then (normalize s) (\<lambda>S.
         and_then (rng_random G n rng1) (\<lambda>(r, rng2).
         and_then (normalize r) (\<lambda>R.
         and_then (rng_random G n rng2) (\<lambda>(c, rng3).
         and_then (normalize c) (\<lambda>C.
         and_then (rng_random G n rng3) (\<lambda>(e, rng4).
         and_then (normalize e) (\<lambda>E.
         Inr (S, R, C, E))))))))))"

subsection \<open>The main block\<close>

text \<open>\<^verbatim>\<open>x.mean()\<close>: the mean of an empty array is NaN.\<close>

definition mean :: "real list \<Rightarrow> np_error + real" where
  "mean x = (if x = [] then Inl InvalidValue else Inr (sum_list x / real (length x)))"

text \<open>
  \<^verbatim>\<open>
  S, R, C, E = generate_random_system()
  score = compute_IELS(S.mean(), R.mean(), C.mean(), E.mean())
  \<close>
  followed by the printing of the four means and of the score. \<open>pipeline\<close> is this block
  with the length as a parameter; its result is what the block prints. The script itself
  runs it at the default length, 1000. Each mean enters \<open>compute_IELS\<close> as the double
  nearest to it.
\<close>

definition pipeline ::
  "('e, 's) bit_generator \<Rightarrow> 'e \<Rightarrow> int \<Rightarrow> np_error + (real \<times> real \<times> real \<times> real \<times> double)" where
  "pipeline G env n =
     and_then (generate_random_system G env n) (\<lambda>(S, R, C, E).
     and_then (mean S) (\<lambda>mS.
     and_then (mean R) (\<lambda>mR.
     and_then (mean C) (\<lambda>mC.
     and_then (mean E) (\<lambda>mE.
     Inr (mS, mR, mC, mE, compute_IELS (rnd mS) (rnd mR) (rnd mC) (rnd mE)))))))"

definition main ::
  "('e, 's) bit_generator \<Rightarrow> 'e \<Rightarrow> np_error + (real \<times> real \<times> real \<times> real \<times> double)" where
  "main G env = pipeline G env 1000"

subsection \<open>A sample bit generator\<close>

text \<open>
  A 64-bit linear congruential generator, used only to evaluate the model at concrete
  inputs. The state is the seed, or the entropy, as a 64-bit word.
\<close>

definition lcg64 :: "(nat, 64 word) bit_generator" where
  "lcg64 =
     \<lparr> from_seed = word_of_nat,
       from_entropy = word_of_nat,
       next_uint64 = (\<lambda>s. let s' = s * 6364136223846793005 + 1442695040888963407 in (s', s')) \<rparr>"

section \<open>Properties of normalize\<close>

lemma and_then_Inl: "and_then (Inl e) f = Inl e"
  by (simp add: and_then_def)

lemma and_then_Inr: "and_then (Inr v) f = f v"
  by (simp add: and_then_def)

lemma eps_pos: "0 < eps"
  by (simp add: eps_def)

lemma eps_le_one: "eps \<le> 1"
  by (simp add: eps_def)

lemma length_clip: "length (clip lo x) = length x"
  by (simp add: clip_def)

lemma clip_eq_Nil: "clip lo x = [] \<longleftrightarrow> x = []"
  by (simp add: clip_def)

lemma clip_ge: "v \<in> set (clip lo x) \<Longrightarrow> lo \<le> v"
  by (auto simp: clip_def)

lemma np_max_Max: "x \<noteq> [] \<Longrightarrow> np_max x = Inr (Max (set x))"
  by (cases x) (simp_all add: Max.set_eq_fold [symmetric])

lemma Max_clip_pos:
  assumes "x \<noteq> []"
  shows "0 < Max (set (clip eps x))"
proof -
  have ne: "clip eps x \<noteq> []"
    using assms by (simp add: clip_eq_Nil)
  then have "Max (set (clip eps x)) \<in> set (clip eps x)"
    by simp
  then have "eps \<le> Max (set (clip eps x))"
    by (rule clip_ge)
  with eps_pos show ?thesis
    by linarith
qed

lemma normalize_nonempty:
  assumes "x \<noteq> []"
  shows "normalize x = Inr (map (\<lambda>v. v / Max (set (clip eps x))) (clip eps x))"
proof -
  have "np_max (clip eps x) = Inr (Max (set (clip eps x)))"
    using assms by (simp add: np_max_Max clip_eq_Nil)
  moreover have "Max (set (clip eps x)) \<noteq> 0"
    using Max_clip_pos [OF assms] by simp
  ultimately show ?thesis
    by (simp add: normalize_def np_divide_def Let_def and_then_Inr)
qed

lemma normalize_Nil: "normalize [] = Inl ZeroSizeReduction"
  by (simp add: normalize_def clip_def and_then_Inl)

lemma Max_scaled:
  fixes y :: "real list"
  assumes "y \<noteq> []" and "0 < Max (set y)"
  shows "Max (set (map (\<lambda>v. v / Max (set y)) y)) = 1"
proof (rule Max_eqI)
  show "finite (set (map (\<lambda>v. v / Max (set y)) y))"
    by simp
next
  fix w
  assume "w \<in> set (map (\<lambda>v. v / Max (set y)) y)"
  then obtain v where v: "v \<in> set y" and w: "w = v / Max (set y)"
    by auto
  from v have "v \<le> Max (set y)"
    by simp
  with assms(2) show "w \<le> 1"
    by (simp add: w)
next
  have "Max (set y) \<in> set y"
    using assms(1) by simp
  moreover have "Max (set y) / Max (set y) = 1"
    using assms(2) by simp
  ultimately show "1 \<in> set (map (\<lambda>v. v / Max (set y)) y)"
    by force
qed

lemma scaled_range:
  fixes y :: "real list"
  assumes "\<forall>v\<in>set y. 0 < v" and "w \<in> set (map (\<lambda>v. v / Max (set y)) y)"
  shows "0 < w \<and> w \<le> 1"
proof -
  from assms(2) obtain v where v: "v \<in> set y" and w: "w = v / Max (set y)"
    by auto
  from v have le: "v \<le> Max (set y)"
    by simp
  from v assms(1) have pos: "0 < v"
    by simp
  with le have "0 < Max (set y)"
    by linarith
  with pos le show ?thesis
    by (simp add: w)
qed

lemma clip_eps_pos: "\<forall>v\<in>set (clip eps x). 0 < v"
proof
  fix v
  assume "v \<in> set (clip eps x)"
  then have "eps \<le> v"
    by (rule clip_ge)
  with eps_pos show "0 < v"
    by linarith
qed

lemma normalize_props:
  assumes "x \<noteq> []"
  shows "\<exists>y. normalize x = Inr y \<and> length y = length x \<and> Max (set y) = 1
           \<and> (\<forall>v\<in>set y. 0 < v \<and> v \<le> 1)"
proof -
  let ?c = "clip eps x"
  let ?y = "map (\<lambda>v. v / Max (set ?c)) ?c"
  have ne: "?c \<noteq> []"
    using assms by (simp add: clip_eq_Nil)
  have "normalize x = Inr ?y"
    by (rule normalize_nonempty [OF assms])
  moreover have "length ?y = length x"
    by (simp add: length_clip)
  moreover have "Max (set ?y) = 1"
    by (rule Max_scaled [OF ne Max_clip_pos [OF assms]])
  moreover have "\<forall>v\<in>set ?y. 0 < v \<and> v \<le> 1"
    using scaled_range [OF clip_eps_pos] by blast
  ultimately show ?thesis
    by blast
qed

text \<open>
  Claim C1. For every non-empty sequence of real numbers, the result of \<open>normalize\<close> has
  the length of the input, its maximum is exactly 1, and every element lies in \<open>(0, 1]\<close>.
\<close>

theorem normalize_range:
  "x \<noteq> [] \<Longrightarrow>
     \<exists>y. normalize x = Inr y \<and> length y = length x \<and> Max (set y) = 1
       \<and> (\<forall>v\<in>set y. 0 < v \<and> v \<le> 1)"
  by (rule normalize_props)

theorem normalize_range_witness:
  "[2, - 1, 4 :: real] \<noteq> [] \<and>
   (\<exists>y. normalize [2, - 1, 4] = Inr y \<and> length y = length [2, - 1, 4 :: real] \<and> Max (set y) = 1
      \<and> (\<forall>v\<in>set y. 0 < v \<and> v \<le> 1))"
  using normalize_range [of "[2, - 1, 4]"] by simp

text \<open>
  Claim C7. For every non-empty input, also an all-zero or an all-negative one, the
  maximum of the floored sequence is positive, so the division of \<open>normalize\<close> is never a
  division by zero and \<open>normalize\<close> returns an array.
\<close>

theorem normalize_no_division_by_zero:
  "x \<noteq> [] \<Longrightarrow>
     (\<exists>m. np_max (clip eps x) = Inr m \<and> 0 < m \<and> np_divide (clip eps x) m \<noteq> Inl DivideByZero)
     \<and> (\<exists>y. normalize x = Inr y)"
  using Max_clip_pos [of x] normalize_nonempty [of x]
  by (simp add: np_max_Max clip_eq_Nil np_divide_def)

theorem normalize_no_division_by_zero_witness:
  "[0, 0 :: real] \<noteq> [] \<and> [- 3, - 1 :: real] \<noteq> [] \<and>
   (\<exists>m. np_max (clip eps [0, 0]) = Inr m \<and> 0 < m
      \<and> np_divide (clip eps [0, 0]) m \<noteq> Inl DivideByZero) \<and>
   (\<exists>m. np_max (clip eps [- 3, - 1]) = Inr m \<and> 0 < m
      \<and> np_divide (clip eps [- 3, - 1]) m \<noteq> Inl DivideByZero) \<and>
   normalize [0, 0] = Inr [1, 1] \<and> normalize [- 3, - 1] = Inr [1, 1]"
  using normalize_no_division_by_zero [of "[0, 0]"]
    normalize_no_division_by_zero [of "[- 3, - 1]"]
  by (simp add: normalize_def clip_def eps_def np_divide_def and_then_def)

subsection \<open>Constant sequences\<close>

lemma clip_replicate: "clip lo (replicate k c) = replicate k (max lo c)"
  by (simp add: clip_def)

lemma normalize_replicate:
  assumes "0 < k"
  shows "normalize (replicate k c) = Inr (replicate k 1)"
proof -
  have pos: "0 < max eps c"
    using eps_pos by (simp add: max_def)
  have ne: "replicate k c \<noteq> []"
    using assms by simp
  have "Max (set (clip eps (replicate k c))) = max eps c"
    using assms by (simp add: clip_replicate)
  with pos show ?thesis
    by (simp add: normalize_nonempty [OF ne] clip_replicate)
qed

text \<open>
  Claim C8. For every non-empty sequence whose elements all equal one value \<open>c\<close>, of any
  sign, every element of the normalized sequence is exactly 1.
\<close>

theorem normalize_constant:
  "x \<noteq> [] \<Longrightarrow> \<forall>u\<in>set x. u = c \<Longrightarrow> normalize x = Inr (replicate (length x) 1)"
proof -
  assume ne: "x \<noteq> []" and same: "\<forall>u\<in>set x. u = c"
  from same have "replicate (length x) c = x"
    by (rule replicate_length_same)
  moreover have "normalize (replicate (length x) c) = Inr (replicate (length x) 1)"
    using ne by (simp add: normalize_replicate)
  ultimately show ?thesis
    by simp
qed

theorem normalize_constant_witness:
  "[- 7, - 7, - 7 :: real] \<noteq> [] \<and> set [- 7, - 7, - 7 :: real] = {- 7}
   \<and> normalize [- 7, - 7, - 7] = Inr [1, 1, 1]
   \<and> normalize [0, 0] = Inr [1, 1]"
  using normalize_constant [of "[- 7, - 7, - 7]" "- 7"] normalize_constant [of "[0, 0]" 0]
  by (simp add: numeral_3_eq_3)

subsection \<open>Normalizing twice\<close>

lemma Max_clip_normalized:
  fixes y :: "real list"
  assumes "y \<noteq> []" and "Max (set y) = 1"
  shows "Max (set (clip eps y)) = 1"
proof (rule Max_eqI)
  show "finite (set (clip eps y))"
    by simp
next
  fix w
  assume "w \<in> set (clip eps y)"
  then obtain v where v: "v \<in> set y" and w: "w = max eps v"
    by (auto simp: clip_def)
  from v have "v \<le> Max (set y)"
    by simp
  with assms(2) eps_le_one show "w \<le> 1"
    by (simp add: w)
next
  have "Max (set y) \<in> set y"
    using assms(1) by simp
  then have "1 \<in> set y"
    by (simp add: assms(2))
  moreover have "max eps 1 = (1::real)"
    using eps_le_one by (simp add: max_def)
  ultimately show "1 \<in> set (clip eps y)"
    by (force simp: clip_def)
qed

lemma clip_fixed: "clip lo y = y \<longleftrightarrow> (\<forall>v\<in>set y. lo \<le> v)"
proof -
  have "clip lo y = y \<longleftrightarrow> map (max lo) y = map (\<lambda>v. v) y"
    by (simp add: clip_def)
  also have "\<dots> \<longleftrightarrow> (\<forall>v\<in>set y. max lo v = v)"
    by (rule map_eq_conv)
  also have "\<dots> \<longleftrightarrow> (\<forall>v\<in>set y. lo \<le> v)"
    by (auto simp: max_def)
  finally show ?thesis .
qed

lemma normalize_normalized:
  assumes "y \<noteq> []" and "Max (set y) = 1"
  shows "normalize y = Inr (clip eps y)"
  using assms by (simp add: normalize_nonempty Max_clip_normalized)

text \<open>
  Claim C5 says that \<open>normalize (normalize x)\<close> is \<open>normalize x\<close> for every non-empty \<open>x\<close>.
  The second normalization floors again: an element of \<open>normalize x\<close> below \<open>eps\<close> is raised
  to \<open>eps\<close>. With \<open>x = [1, 10 ^ 16]\<close> the first result is \<open>[1 / 10 ^ 16, 1]\<close> and the
  second is \<open>[1 / 10 ^ 15, 1]\<close>.
\<close>

theorem normalize_not_idempotent:
  "normalize [1, 10 ^ 16] = Inr [1 / 10 ^ 16, 1]
   \<and> normalize [1 / 10 ^ 16, 1] = Inr [1 / 10 ^ 15, 1]
   \<and> normalize [1 / 10 ^ 16, 1] \<noteq> normalize [1, 10 ^ 16]"
  by (simp add: normalize_def clip_def eps_def np_divide_def and_then_def)

text \<open>
  Claim C5, amended. For every non-empty \<open>x\<close>, normalizing \<open>y = normalize x\<close> again floors
  \<open>y\<close> at \<open>eps\<close> and changes nothing else; so the second result equals the first exactly
  when every element of \<open>y\<close> is at least \<open>eps\<close>.
\<close>

theorem normalize_twice:
  "x \<noteq> [] \<Longrightarrow>
     \<exists>y. normalize x = Inr y \<and> normalize y = Inr (clip eps y)
       \<and> (normalize y = normalize x \<longleftrightarrow> (\<forall>v\<in>set y. eps \<le> v))"
proof -
  assume ne: "x \<noteq> []"
  from normalize_props [OF ne] obtain y
    where y: "normalize x = Inr y" and len: "length y = length x" and mx: "Max (set y) = 1"
    by blast
  from len ne have yne: "y \<noteq> []"
    by auto
  have "normalize y = Inr (clip eps y)"
    by (rule normalize_normalized [OF yne mx])
  then show ?thesis
    using y by (simp add: clip_fixed)
qed

theorem normalize_twice_witness:
  "[3, 6 :: real] \<noteq> [] \<and> normalize [3, 6] = Inr [1 / 2, 1]
   \<and> eps \<le> 1 / 2 \<and> eps \<le> 1
   \<and> normalize [1 / 2, 1] = normalize [3, 6]"
  using normalize_twice [of "[3, 6]"]
  by (simp add: normalize_def clip_def eps_def np_divide_def and_then_def)

section \<open>Rounding\<close>

lemma rne_of_int: "rne (of_int n) = n"
  by (simp add: rne_def)

lemma rne_bounds: "\<lfloor>t\<rfloor> \<le> rne t \<and> rne t \<le> \<lfloor>t\<rfloor> + 1"
  by (simp add: rne_def Let_def)

lemma rne_ge_int:
  assumes "of_int n \<le> t"
  shows "n \<le> rne t"
proof -
  from assms have "n \<le> \<lfloor>t\<rfloor>" by (simp add: le_floor_iff)
  with rne_bounds [of t] show ?thesis by linarith
qed

lemma rne_le_int:
  assumes "t \<le> of_int n"
  shows "rne t \<le> n"
proof (cases "t = of_int n")
  case True
  then show ?thesis by (simp add: rne_of_int)
next
  case False
  with assms have "t < of_int n" by simp
  then have "\<lfloor>t\<rfloor> < n" by (simp add: floor_less_iff)
  with rne_bounds [of t] show ?thesis by linarith
qed

lemma rne_mono:
  assumes "a \<le> b"
  shows "rne a \<le> rne b"
proof (cases "\<lfloor>a\<rfloor> = \<lfloor>b\<rfloor>")
  case True
  with assms show ?thesis
    by (auto simp: rne_def Let_def)
next
  case False
  moreover from assms have "\<lfloor>a\<rfloor> \<le> \<lfloor>b\<rfloor>" by (rule floor_mono)
  ultimately have "\<lfloor>a\<rfloor> + 1 \<le> \<lfloor>b\<rfloor>" by simp
  with rne_bounds [of a] rne_bounds [of b] show ?thesis by linarith
qed

lemma quantum_pos: "0 < quantum x"
  by (simp add: quantum_def)

lemma binade_ge: "- 1022 \<le> binade x"
  by (simp add: binade_def)

lemma binade_upper:
  assumes "0 < x"
  shows "x < 2 powr of_int (binade x + 1)"
proof -
  have "log 2 x < of_int (\<lfloor>log 2 x\<rfloor> + 1)"
    by linarith
  also have "\<dots> \<le> of_int (binade x + 1)"
    using assms by (simp add: binade_def)
  finally have "log 2 x < of_int (binade x + 1)" .
  with assms show ?thesis
    by (simp add: log_less_iff)
qed

lemma binade_lower:
  assumes "0 < x" and "- 1022 < binade x"
  shows "2 powr of_int (binade x) \<le> x"
proof -
  from assms have "binade x = \<lfloor>log 2 x\<rfloor>"
    by (simp add: binade_def max_def split: if_splits)
  then have "of_int (binade x) \<le> log 2 x"
    by simp
  with assms(1) show ?thesis
    by (simp add: le_log_iff)
qed

lemma binade_mono:
  assumes "0 < x" and "x \<le> y"
  shows "binade x \<le> binade y"
proof -
  from assms have "log 2 \<bar>x\<bar> \<le> log 2 \<bar>y\<bar>"
    by simp
  then have "\<lfloor>log 2 \<bar>x\<bar>\<rfloor> \<le> \<lfloor>log 2 \<bar>y\<bar>\<rfloor>"
    by (rule floor_mono)
  then show ?thesis
    unfolding binade_def by (rule max.mono) simp
qed

lemma binade_pow2: "binade (2 powr of_int k) = max k (- 1022)"
  by (simp add: binade_def)

lemma powr_int_quotient:
  assumes "j \<le> k"
  shows "2 powr of_int k / 2 powr of_int j = (of_int (2 ^ nat (k - j)) :: real)"
proof -
  have "2 powr of_int k / 2 powr of_int j = (2::real) powr (of_int k - of_int j)"
    by (simp add: powr_diff)
  also have "\<dots> = 2 powr of_int (k - j)"
    by (simp only: of_int_diff)
  also have "\<dots> = 2 ^ nat (k - j)"
    using assms by (simp only: powr_real_of_int) simp
  finally show ?thesis
    by simp
qed

lemma round_fin_nonneg:
  assumes "0 \<le> x"
  shows "0 \<le> round_fin x"
proof -
  have "0 \<le> x / quantum x"
    using assms quantum_pos [of x] by simp
  then have "0 \<le> rne (x / quantum x)"
    using rne_ge_int [of 0 "x / quantum x"] by simp
  then show ?thesis
    using quantum_pos [of x] by (simp add: round_fin_def)
qed

text \<open>Below a power of two of its binade or above, a number rounds to at most that power.\<close>

lemma round_fin_le_pow2:
  assumes "0 < x" and "x \<le> 2 powr of_int k" and "binade x \<le> k + 52"
  shows "round_fin x \<le> 2 powr of_int k"
proof -
  let ?q = "quantum x"
  let ?j = "binade x - 52"
  have q: "0 < ?q"
    by (rule quantum_pos)
  from assms(3) have jk: "?j \<le> k"
    by simp
  have "x / ?q \<le> 2 powr of_int k / ?q"
    using assms(2) q by (simp add: divide_right_mono)
  also have "\<dots> = of_int (2 ^ nat (k - ?j))"
    unfolding quantum_def by (rule powr_int_quotient [OF jk])
  finally have "rne (x / ?q) \<le> 2 ^ nat (k - ?j)"
    by (rule rne_le_int)
  then have "real_of_int (rne (x / ?q)) \<le> of_int (2 ^ nat (k - ?j))"
    by (simp only: of_int_le_iff)
  then have "of_int (rne (x / ?q)) * ?q \<le> of_int (2 ^ nat (k - ?j)) * ?q"
    using q by (simp only: mult_le_cancel_right_pos)
  also have "of_int (2 ^ nat (k - ?j)) * ?q = 2 powr of_int k"
    using powr_int_quotient [OF jk] q unfolding quantum_def by (simp add: field_simps)
  finally show ?thesis
    using assms(1) by (simp add: round_fin_def)
qed

lemma round_fin_ge_pow2:
  assumes "0 < x" and "2 powr of_int k \<le> x" and "binade x \<le> k + 52"
  shows "2 powr of_int k \<le> round_fin x"
proof -
  let ?q = "quantum x"
  let ?j = "binade x - 52"
  have q: "0 < ?q"
    by (rule quantum_pos)
  from assms(3) have jk: "?j \<le> k"
    by simp
  have "2 powr of_int k / ?q \<le> x / ?q"
    using assms(2) q by (simp add: divide_right_mono)
  moreover have "2 powr of_int k / ?q = of_int (2 ^ nat (k - ?j))"
    unfolding quantum_def by (rule powr_int_quotient [OF jk])
  ultimately have "of_int (2 ^ nat (k - ?j)) \<le> x / ?q"
    by simp
  then have "2 ^ nat (k - ?j) \<le> rne (x / ?q)"
    by (rule rne_ge_int)
  then have "real_of_int (2 ^ nat (k - ?j)) \<le> of_int (rne (x / ?q))"
    by (simp only: of_int_le_iff)
  then have "of_int (2 ^ nat (k - ?j)) * ?q \<le> of_int (rne (x / ?q)) * ?q"
    using q by (simp only: mult_le_cancel_right_pos)
  moreover have "of_int (2 ^ nat (k - ?j)) * ?q = 2 powr of_int k"
    using powr_int_quotient [OF jk] q unfolding quantum_def by (simp add: field_simps)
  ultimately show ?thesis
    using assms(1) by (simp add: round_fin_def)
qed

lemma round_fin_mono_pos:
  assumes "0 < x" and "x \<le> y"
  shows "round_fin x \<le> round_fin y"
proof (cases "binade x = binade y")
  case True
  then have q: "quantum y = quantum x"
    by (simp add: quantum_def)
  have "x / quantum x \<le> y / quantum x"
    using assms(2) quantum_pos [of x] by (simp add: divide_right_mono)
  then have "rne (x / quantum x) \<le> rne (y / quantum x)"
    by (rule rne_mono)
  then have "real_of_int (rne (x / quantum x)) \<le> of_int (rne (y / quantum x))"
    by (simp only: of_int_le_iff)
  then have "of_int (rne (x / quantum x)) * quantum x \<le> of_int (rne (y / quantum x)) * quantum x"
    using quantum_pos [of x] by (simp only: mult_le_cancel_right_pos)
  with assms show ?thesis
    by (simp add: round_fin_def q)
next
  case False
  from assms have ypos: "0 < y"
    by simp
  let ?k = "binade y"
  from False binade_mono [OF assms] have lt: "binade x < ?k"
    by simp
  with binade_ge [of x] have "- 1022 < ?k"
    by simp
  with ypos have ky: "2 powr of_int ?k \<le> y"
    by (rule binade_lower)
  from lt have "real_of_int (binade x + 1) \<le> of_int ?k"
    by (simp only: of_int_le_iff)
  then have "(2::real) powr of_int (binade x + 1) \<le> 2 powr of_int ?k"
    by (simp only: powr_le_cancel_iff [of 2] one_less_numeral_iff semiring_norm)
  with binade_upper [OF assms(1)] have "x < 2 powr of_int ?k"
    by (rule less_le_trans)
  then have kx: "x \<le> 2 powr of_int ?k"
    by (rule less_imp_le)
  from lt have "binade x \<le> ?k + 52"
    by simp
  with assms(1) kx have "round_fin x \<le> 2 powr of_int ?k"
    by (rule round_fin_le_pow2)
  moreover have "2 powr of_int ?k \<le> round_fin y"
    using ypos ky by (rule round_fin_ge_pow2) simp
  ultimately show ?thesis
    by simp
qed

lemma round_fin_mono:
  assumes "0 \<le> x" and "x \<le> y"
  shows "round_fin x \<le> round_fin y"
proof (cases "x = 0")
  case True
  with assms round_fin_nonneg [of y] show ?thesis
    by (simp add: round_fin_def)
next
  case False
  with assms have "0 < x"
    by simp
  then show ?thesis
    using assms(2) by (rule round_fin_mono_pos)
qed

lemma round_fin_pow2:
  assumes "- 1074 \<le> k"
  shows "round_fin (2 powr of_int k) = 2 powr of_int k"
proof -
  have b: "binade (2 powr of_int k) \<le> k + 52"
    using assms by (simp add: binade_pow2)
  have pos: "(0::real) < 2 powr of_int k"
    by simp
  have "round_fin (2 powr of_int k) \<le> 2 powr of_int k"
    using pos order_refl b by (rule round_fin_le_pow2)
  moreover have "2 powr of_int k \<le> round_fin (2 powr of_int k)"
    using pos order_refl b by (rule round_fin_ge_pow2)
  ultimately show ?thesis
    by simp
qed

lemma round_fin_zero: "round_fin 0 = 0"
  by (simp add: round_fin_def)

lemma round_fin_one: "round_fin 1 = 1"
  using round_fin_pow2 [of 0] by simp

lemma rne_small:
  assumes "0 \<le> t" and "t \<le> 1 / 2"
  shows "rne t = 0"
proof -
  from assms have "\<lfloor>t\<rfloor> = 0"
    by (simp add: floor_eq_iff)
  with assms show ?thesis
    by (simp add: rne_def Let_def)
qed

lemma round_fin_underflow:
  assumes "0 \<le> x" and "x \<le> 2 powr (- 1075)"
  shows "round_fin x = 0"
proof (cases "x = 0")
  case True
  then show ?thesis by (simp add: round_fin_def)
next
  case False
  with assms have pos: "0 < x"
    by simp
  from assms(2) pos have "log 2 x \<le> - 1075"
    by (simp add: log_le_iff)
  then have "\<lfloor>log 2 x\<rfloor> \<le> - 1075"
    by (simp add: floor_le_iff)
  with pos have b: "binade x = - 1022"
    by (simp add: binade_def)
  then have q: "quantum x = 2 powr (- 1074)"
    by (simp add: quantum_def)
  have "(2::real) powr (- 1075) = 2 powr (- 1074) / 2"
    using powr_diff [of "2::real" "- 1074" 1] by simp
  with assms(2) have "x / 2 powr (- 1074) \<le> 1 / 2"
    by (simp add: field_simps)
  moreover have "0 \<le> x / 2 powr (- 1074)"
    using pos by simp
  ultimately have "rne (x / 2 powr (- 1074)) = 0"
    by (intro rne_small)
  with pos show ?thesis
    by (simp add: round_fin_def q)
qed

text \<open>A positive result of rounding is at least the least positive double.\<close>

lemma round_fin_least:
  assumes "0 < round_fin x" and "0 \<le> x"
  shows "2 powr (- 1074) \<le> round_fin x"
proof -
  from assms(1) have x: "x \<noteq> 0"
    by (auto simp: round_fin_def)
  then have r: "round_fin x = of_int (rne (x / quantum x)) * quantum x"
    by (simp add: round_fin_def)
  with assms(1) quantum_pos [of x] have "0 < real_of_int (rne (x / quantum x))"
    by (simp add: zero_less_mult_iff)
  then have "1 \<le> rne (x / quantum x)"
    by simp
  then have "(1::real) \<le> of_int (rne (x / quantum x))"
    by (simp only: of_int_1 [symmetric, where 'a = real] of_int_le_iff)
  then have "quantum x \<le> round_fin x"
    using quantum_pos [of x] by (simp add: r)
  moreover have "(2::real) powr (- 1074) \<le> quantum x"
    using binade_ge [of x] unfolding quantum_def by (simp only: powr_le_cancel_iff)
  ultimately show ?thesis
    by simp
qed

lemma rnd_zero: "rnd 0 = Fin 0"
  by (simp add: rnd_def round_fin_zero)

lemma rnd_one: "rnd 1 = Fin 1"
  by (simp add: rnd_def round_fin_one)

lemma rnd_underflow: "0 \<le> x \<Longrightarrow> x \<le> 2 powr (- 1075) \<Longrightarrow> rnd x = Fin 0"
  by (simp add: rnd_def round_fin_underflow)

lemma rnd_pow2:
  assumes "- 1074 \<le> k" and "k < 1024"
  shows "rnd (2 powr of_int k) = Fin (2 powr of_int k)"
proof -
  let ?p = "(2::real) powr of_int k"
  from assms(2) have "real_of_int k < of_int 1024"
    by (simp only: of_int_less_iff)
  then have "?p < 2 powr of_int 1024"
    by (simp only: powr_less_cancel_iff [of 2] one_less_numeral_iff semiring_norm)
  also have "(2::real) powr of_int 1024 = 2 ^ 1024"
    by (simp add: powr_real_of_int)
  finally have 1: "\<not> 2 ^ 1024 \<le> ?p"
    by (simp only: not_le)
  have "- (2 ^ 1024) < (0::real)"
    by simp
  also have "0 < ?p"
    by simp
  finally have 2: "\<not> ?p \<le> - (2 ^ 1024)"
    by (simp only: not_le)
  show ?thesis
    by (simp only: rnd_def Let_def round_fin_pow2 [OF assms(1)] 1 2 if_False)
qed

lemma rnd_overflow:
  assumes "2 powr 1024 \<le> x"
  shows "rnd x = PInf"
proof -
  have p: "(2::real) powr of_int 1024 = 2 ^ 1024"
    by (simp add: powr_real_of_int)
  have "(0::real) < 2 powr 1024"
    by simp
  with assms have "round_fin (2 powr of_int 1024) \<le> round_fin x"
    by (intro round_fin_mono_pos) simp_all
  then have "2 ^ 1024 \<le> round_fin x"
    using round_fin_pow2 [of 1024] p by simp
  then show ?thesis
    by (simp add: rnd_def)
qed



section \<open>Properties of the double operations\<close>




lemma fmul_Fin: "fmul (Fin a) (Fin b) = rnd (a * b)"
  by (simp add: fmul_def)

lemma fmul_NaN: "fmul NaN y = NaN" "fmul x NaN = NaN"
  by (simp_all add: fmul_def)


lemma fmul_PInf_Fin: "fmul PInf (Fin b) = (if b = 0 then NaN else if 0 < b then PInf else NInf)"
  by (simp add: fmul_def dsgn_def inf_of_sign_def sgn_if)




lemma power_quarter_zero: "power_quarter (Fin 0) = Fin 0"
  by (simp add: power_quarter_def rnd_zero)









lemma power_quarter_nn: "power_quarter (Fin a) = (if a < 0 then NaN else rnd (a powr (1 / 4)))"
  by (simp add: power_quarter_def)




lemma pow2_mult: "(2::real) powr of_int j * 2 powr of_int k = 2 powr of_int (j + k)"
  by (simp add: powr_add)

lemma fmul_pow2:
  assumes "- 1074 \<le> j + k" and "j + k < 1024"
  shows "fmul (Fin (2 powr of_int j)) (Fin (2 powr of_int k)) = Fin (2 powr of_int (j + k))"
  unfolding fmul_Fin pow2_mult using assms by (rule rnd_pow2)

lemma fmul_pow2_underflow:
  assumes "j + k \<le> - 1075"
  shows "fmul (Fin (2 powr of_int j)) (Fin (2 powr of_int k)) = Fin 0"
proof -
  from assms have "real_of_int (j + k) \<le> of_int (- 1075)"
    by (simp only: of_int_le_iff)
  then have "(2::real) powr of_int (j + k) \<le> 2 powr of_int (- 1075)"
    by (simp only: powr_le_cancel_iff [of 2] one_less_numeral_iff semiring_norm)
  then have "(2::real) powr of_int (j + k) \<le> 2 powr (- 1075)"
    by simp
  moreover have "(0::real) \<le> 2 powr of_int (j + k)"
    by simp
  ultimately have "rnd (2 powr of_int (j + k)) = Fin 0"
    by (rule rnd_underflow [rotated])
  then show ?thesis
    unfolding fmul_Fin pow2_mult .
qed

lemma fmul_pow2_overflow:
  assumes "1024 \<le> j + k"
  shows "fmul (Fin (2 powr of_int j)) (Fin (2 powr of_int k)) = PInf"
proof -
  from assms have "real_of_int 1024 \<le> of_int (j + k)"
    by (simp only: of_int_le_iff)
  then have "(2::real) powr of_int 1024 \<le> 2 powr of_int (j + k)"
    by (simp only: powr_le_cancel_iff [of 2] one_less_numeral_iff semiring_norm)
  then have "(2::real) powr 1024 \<le> 2 powr of_int (j + k)"
    by simp
  then have "rnd (2 powr of_int (j + k)) = PInf"
    by (rule rnd_overflow)
  then show ?thesis
    unfolding fmul_Fin pow2_mult .
qed

lemma fmul_zero_right: "fmul (Fin a) (Fin 0) = Fin 0"
  by (simp add: fmul_Fin rnd_zero)

lemma fmul_zero_left: "fmul (Fin 0) (Fin a) = Fin 0"
  by (simp add: fmul_Fin rnd_zero)

lemma fmul_PInf_zero: "fmul PInf (Fin 0) = NaN"
  by (simp add: fmul_PInf_Fin)

lemma power_quarter_NaN: "power_quarter NaN = NaN"
  by (simp add: power_quarter_def)

lemma rnd_unit:
  assumes "0 \<le> x" and "x \<le> 1"
  shows "rnd x = Fin (round_fin x) \<and> 0 \<le> round_fin x \<and> round_fin x \<le> 1"
proof -
  have 1: "round_fin x \<le> 1"
    using round_fin_mono [OF assms] by (simp add: round_fin_one)
  have 0: "0 \<le> round_fin x"
    using assms(1) by (rule round_fin_nonneg)
  have "(1::real) < 2 ^ 1024"
    by simp
  with 1 have "round_fin x < 2 ^ 1024"
    by (rule le_less_trans)
  with 0 1 show ?thesis
    by (simp add: rnd_def Let_def)
qed

lemma fmul_unit:
  assumes "0 \<le> a" "a \<le> 1" "0 \<le> b" "b \<le> 1"
  shows "fmul (Fin a) (Fin b) = Fin (round_fin (a * b))
           \<and> 0 \<le> round_fin (a * b) \<and> round_fin (a * b) \<le> 1"
  unfolding fmul_Fin using assms by (intro rnd_unit) (simp_all add: mult_le_one)

lemma round_fin_normal_pos:
  assumes "2 powr (- 1022) \<le> x"
  shows "0 < round_fin x"
proof -
  have "(0::real) < 2 powr of_int (- 1022)"
    by simp
  moreover from assms have "2 powr of_int (- 1022) \<le> x"
    by simp
  ultimately have "round_fin (2 powr of_int (- 1022)) \<le> round_fin x"
    by (rule round_fin_mono_pos)
  moreover have "round_fin (2 powr of_int (- 1022)) = 2 powr of_int (- 1022)"
    by (rule round_fin_pow2) simp
  ultimately have "2 powr of_int (- 1022) \<le> round_fin x"
    by simp
  moreover have "(0::real) < 2 powr of_int (- 1022)"
    by simp
  ultimately show ?thesis
    by (rule less_le_trans [rotated])
qed

text \<open>The fourth root of a positive double does not underflow.\<close>

lemma round_fin_root_pos:
  assumes "0 < round_fin y" and "0 \<le> y"
  shows "0 < round_fin (round_fin y powr (1 / 4))"
proof -
  let ?p = "round_fin y"
  have "(2::real) powr (- 1022) \<le> 2 powr (- 1074 / 4)"
    by (simp only: powr_le_cancel_iff [of 2] one_less_numeral_iff semiring_norm)
  also have "(2::real) powr (- 1074 / 4) = (2 powr (- 1074)) powr (1 / 4)"
    by (simp add: powr_powr)
  also have "\<dots> \<le> ?p powr (1 / 4)"
  proof (rule powr_mono2)
    show "2 powr (- 1074) \<le> ?p"
      using assms by (rule round_fin_least)
  qed simp_all
  finally have "2 powr (- 1022) \<le> ?p powr (1 / 4)" .
  then show ?thesis
    by (rule round_fin_normal_pos)
qed

lemma compute_IELS_unit:
  assumes "0 < S" "S \<le> 1" "0 < R" "R \<le> 1" "0 < C" "C \<le> 1" "0 < E" "E \<le> 1"
  shows "\<exists>v. compute_IELS (Fin S) (Fin R) (Fin C) (Fin E) = Fin v \<and> 0 \<le> v \<and> v \<le> 1
           \<and> (v = 0 \<longleftrightarrow> fmul (fmul (fmul (Fin S) (Fin R)) (Fin C)) (Fin E) = Fin 0)"
proof -
  let ?p1 = "round_fin (S * R)"
  let ?p2 = "round_fin (?p1 * C)"
  let ?p3 = "round_fin (?p2 * E)"
  let ?v = "round_fin (?p3 powr (1 / 4))"
  have 1: "fmul (Fin S) (Fin R) = Fin ?p1" "0 \<le> ?p1" "?p1 \<le> 1"
    using fmul_unit [of S R] assms by simp_all
  have 2: "fmul (Fin ?p1) (Fin C) = Fin ?p2" "0 \<le> ?p2" "?p2 \<le> 1"
    using fmul_unit [of ?p1 C] 1 assms by simp_all
  have 3: "fmul (Fin ?p2) (Fin E) = Fin ?p3" "0 \<le> ?p3" "?p3 \<le> 1"
    using fmul_unit [of ?p2 E] 2 assms by simp_all
  have "0 \<le> ?p3 powr (1 / 4)" "?p3 powr (1 / 4) \<le> 1"
    using 3 by (simp_all add: powr_le1)
  then have 4: "rnd (?p3 powr (1 / 4)) = Fin ?v" "0 \<le> ?v" "?v \<le> 1"
    using rnd_unit [of "?p3 powr (1 / 4)"] by simp_all
  have c: "compute_IELS (Fin S) (Fin R) (Fin C) (Fin E) = Fin ?v"
    using 3(2) by (simp add: compute_IELS_def 1(1) 2(1) 3(1) power_quarter_nn 4(1))
  have "?v = 0 \<longleftrightarrow> ?p3 = 0"
  proof
    assume v: "?v = 0"
    show "?p3 = 0"
    proof (rule ccontr)
      assume "?p3 \<noteq> 0"
      with 3(2) have "0 < ?p3"
        by simp
      moreover have "0 \<le> ?p2 * E"
        using 2(2) assms by simp
      ultimately have "0 < ?v"
        by (rule round_fin_root_pos)
      with v show False
        by simp
    qed
  next
    assume "?p3 = 0"
    then show "?v = 0"
      by (simp add: round_fin_zero)
  qed
  with c 4 show ?thesis
    by (simp add: 1(1) 2(1) 3(1))
qed

lemma fmul_by_zero: "fmul x (Fin 0) = (if is_finite x then Fin 0 else NaN)"
  by (cases x) (simp_all add: is_finite_def fmul_def rnd_zero dsgn_def inf_of_sign_def)

lemma is_finite_rnd_one: "is_finite (fmul (Fin 1) (Fin 1))"
  by (simp add: fmul_Fin rnd_one is_finite_def)



section \<open>Properties of compute_IELS\<close>

text \<open>
  Claim C3 says that for inputs in \<open>(0, 1]\<close> the result lies in \<open>(0, 1]\<close>. A product of
  small factors underflows: with the four inputs \<open>2 powr (- 300)\<close> the partial products are
  \<open>2 powr (- 600)\<close>, \<open>2 powr (- 900)\<close> and then 0, and the result is 0.
\<close>

theorem compute_IELS_underflow:
  "0 < (2::real) powr (- 300) \<and> (2::real) powr (- 300) \<le> 1
   \<and> compute_IELS (Fin (2 powr (- 300))) (Fin (2 powr (- 300))) (Fin (2 powr (- 300)))
       (Fin (2 powr (- 300))) = Fin 0"
proof -
  have 1: "fmul (Fin (2 powr (- 300))) (Fin (2 powr (- 300))) = Fin (2 powr (- 600))"
    using fmul_pow2 [of "- 300" "- 300"] by simp
  have 2: "fmul (Fin (2 powr (- 600))) (Fin (2 powr (- 300))) = Fin (2 powr (- 900))"
    using fmul_pow2 [of "- 600" "- 300"] by simp
  have 3: "fmul (Fin (2 powr (- 900))) (Fin (2 powr (- 300))) = Fin 0"
    using fmul_pow2_underflow [of "- 900" "- 300"] by simp
  have "(2::real) powr (- 300) \<le> 2 powr 0"
    by (simp only: powr_le_cancel_iff [of 2] one_less_numeral_iff semiring_norm)
  then have "(2::real) powr (- 300) \<le> 1"
    by simp
  then show ?thesis
    by (simp add: compute_IELS_def 1 2 3 power_quarter_zero)
qed

text \<open>
  Claim C3, amended. For inputs in \<open>(0, 1]\<close> the result is a number in \<open>[0, 1]\<close>, and it is 0
  exactly when the product, as computed in doubles, has underflowed to 0.
\<close>

theorem compute_IELS_range:
  "0 < S \<Longrightarrow> S \<le> 1 \<Longrightarrow> 0 < R \<Longrightarrow> R \<le> 1 \<Longrightarrow> 0 < C \<Longrightarrow> C \<le> 1 \<Longrightarrow> 0 < E \<Longrightarrow> E \<le> 1 \<Longrightarrow>
     \<exists>v. compute_IELS (Fin S) (Fin R) (Fin C) (Fin E) = Fin v \<and> 0 \<le> v \<and> v \<le> 1
       \<and> (v = 0 \<longleftrightarrow> fmul (fmul (fmul (Fin S) (Fin R)) (Fin C)) (Fin E) = Fin 0)"
  by (rule compute_IELS_unit)

theorem compute_IELS_range_witness:
  "\<exists>v. compute_IELS (Fin (1 / 2)) (Fin 1) (Fin (3 / 4)) (Fin (1 / 10)) = Fin v \<and> 0 \<le> v \<and> v \<le> 1"
  using compute_IELS_range [of "1 / 2" 1 "3 / 4" "1 / 10"] by auto

text \<open>
  Claim C4 says that with one input 0 and the other three not negative the result is 0.
  A partial product to the left of the zero can overflow: with the inputs
  \<open>2 powr 600\<close>, \<open>2 powr 600\<close>, 0, 1 the first product is \<open>+inf\<close>, its product with 0 is NaN, and
  the result is NaN.
\<close>

theorem compute_IELS_zero_overflow:
  "compute_IELS (Fin (2 powr 600)) (Fin (2 powr 600)) (Fin 0) (Fin 1) = NaN"
proof -
  have 1: "fmul (Fin (2 powr 600)) (Fin (2 powr 600)) = PInf"
    using fmul_pow2_overflow [of 600 600] by simp
  show ?thesis
    by (simp only: compute_IELS_def 1 fmul_PInf_zero fmul_NaN power_quarter_NaN)
qed

text \<open>
  Claim C4, amended. With one input 0 and the other three finite and not negative, the
  result is 0 when the zero is the first or the second input, and otherwise 0 when the
  partial product to the left of the zero is finite and NaN when it is not; in particular
  \<open>compute_IELS 0 1 1 1\<close> is 0.
\<close>

theorem compute_IELS_zero:
  "0 \<le> a \<Longrightarrow> 0 \<le> b \<Longrightarrow> 0 \<le> c \<Longrightarrow>
     compute_IELS (Fin 0) (Fin a) (Fin b) (Fin c) = Fin 0
     \<and> compute_IELS (Fin a) (Fin 0) (Fin b) (Fin c) = Fin 0
     \<and> compute_IELS (Fin a) (Fin b) (Fin 0) (Fin c)
         = (if is_finite (fmul (Fin a) (Fin b)) then Fin 0 else NaN)
     \<and> compute_IELS (Fin a) (Fin b) (Fin c) (Fin 0)
         = (if is_finite (fmul (fmul (Fin a) (Fin b)) (Fin c)) then Fin 0 else NaN)"
proof -
  have 1: "compute_IELS (Fin 0) (Fin a) (Fin b) (Fin c) = Fin 0"
    by (simp only: compute_IELS_def fmul_zero_left power_quarter_zero)
  have 2: "compute_IELS (Fin a) (Fin 0) (Fin b) (Fin c) = Fin 0"
    by (simp only: compute_IELS_def fmul_zero_left fmul_zero_right power_quarter_zero)
  have 3: "compute_IELS (Fin a) (Fin b) (Fin 0) (Fin c)
             = (if is_finite (fmul (Fin a) (Fin b)) then Fin 0 else NaN)"
    unfolding compute_IELS_def fmul_by_zero
    by (simp add: fmul_NaN power_quarter_NaN fmul_zero_left power_quarter_zero)
  have 4: "compute_IELS (Fin a) (Fin b) (Fin c) (Fin 0)
             = (if is_finite (fmul (fmul (Fin a) (Fin b)) (Fin c)) then Fin 0 else NaN)"
    unfolding compute_IELS_def fmul_by_zero
    by (simp add: power_quarter_NaN power_quarter_zero)
  from 1 2 3 4 show ?thesis
    by (simp only: simp_thms)
qed

theorem compute_IELS_zero_witness:
  "compute_IELS (Fin 0) (Fin 1) (Fin 1) (Fin 1) = Fin 0
   \<and> compute_IELS (Fin 1) (Fin 0) (Fin 1) (Fin 1) = Fin 0
   \<and> compute_IELS (Fin 1) (Fin 1) (Fin 0) (Fin 1) = Fin 0
   \<and> compute_IELS (Fin 1) (Fin 1) (Fin 1) (Fin 0) = Fin 0"
  using compute_IELS_zero [of 1 1 1]
  by (simp add: fmul_Fin rnd_one is_finite_def)




section \<open>Properties of the generator\<close>

lemma unat_drop_bit_11: "unat (drop_bit 11 (w :: 64 word)) < 2 ^ 53"
proof -
  have "unat w < 2 ^ 64"
    using unsigned_less [of w] by simp
  then have "unat w div 2 ^ 11 < 2 ^ 53"
    by (simp add: less_mult_imp_div_less)
  moreover have "unat (drop_bit 11 w) = unat w div 2 ^ 11"
    by (simp only: unat_drop_bit_eq drop_bit_nat_def)
  ultimately show ?thesis
    by (simp only:)
qed

lemma next_double_range: "0 \<le> fst (next_double G st) \<and> fst (next_double G st) < 1"
proof -
  obtain w st' where w: "next_uint64 G st = (w, st')"
    by (cases "next_uint64 G st")
  define k where "k = unat (drop_bit 11 w)"
  have "k < 2 ^ 53"
    unfolding k_def by (rule unat_drop_bit_11)
  then have "real k < real (2 ^ 53)"
    by (simp only: of_nat_less_iff)
  then have lt: "real k < 2 ^ 53"
    by simp
  have "next_double G st = (real k / 2 ^ 53, st')"
    by (simp only: next_double_def w k_def Let_def prod.case)
  with lt show ?thesis
    by simp
qed

lemma draw_props:
  "length (fst (draw G k st)) = k \<and> (\<forall>v\<in>set (fst (draw G k st)). 0 \<le> v \<and> v < 1)"
proof (induction k arbitrary: st)
  case 0
  show ?case by simp
next
  case (Suc k)
  obtain v st1 where v: "next_double G st = (v, st1)"
    by (cases "next_double G st")
  obtain vs st2 where vs: "draw G k st1 = (vs, st2)"
    by (cases "draw G k st1")
  from next_double_range [of G st] v have "0 \<le> v \<and> v < 1"
    by simp
  moreover from Suc.IH [of st1] vs have "length vs = k \<and> (\<forall>u\<in>set vs. 0 \<le> u \<and> u < 1)"
    by simp
  ultimately show ?case
    by (simp add: v vs)
qed

lemma rng_random_props:
  assumes "0 \<le> n"
  shows "\<exists>x st'. rng_random G n st = Inr (x, st') \<and> length x = nat n
           \<and> (\<forall>v\<in>set x. 0 \<le> v \<and> v < 1)"
proof -
  obtain x st' where x: "draw G (nat n) st = (x, st')"
    by (cases "draw G (nat n) st")
  from draw_props [of G "nat n" st] x have "length x = nat n \<and> (\<forall>v\<in>set x. 0 \<le> v \<and> v < 1)"
    by simp
  moreover have "rng_random G n st = Inr (x, st')"
    using assms x by (simp add: rng_random_def)
  ultimately show ?thesis
    by blast
qed

lemma rng_random_negative: "n < 0 \<Longrightarrow> rng_random G n st = Inl NegativeDimensions"
  by (simp add: rng_random_def)

lemma rng_random_zero: "rng_random G 0 st = Inr ([], st)"
  by (simp add: rng_random_def)

text \<open>One line of the generator: a draw followed by its normalization.\<close>

lemma draw_normalize:
  assumes "1 \<le> n"
  shows "\<exists>x st' X. rng_random G n st = Inr (x, st') \<and> normalize x = Inr X
           \<and> length X = nat n \<and> Max (set X) = 1 \<and> (\<forall>v\<in>set X. 0 < v \<and> v \<le> 1)"
proof -
  from assms have "0 \<le> n"
    by simp
  from rng_random_props [OF this, of G st] obtain x st'
    where x: "rng_random G n st = Inr (x, st')" and len: "length x = nat n"
    by blast
  from assms have "0 < nat n"
    by simp
  with len have "x \<noteq> []"
    by (cases x) simp_all
  from normalize_props [OF this] obtain X
    where X: "normalize x = Inr X" "length X = length x" "Max (set X) = 1"
      "\<forall>v\<in>set X. 0 < v \<and> v \<le> 1"
    by blast
  from X(2) len have "length X = nat n"
    by (simp only:)
  with x X(1,3,4) show ?thesis
    by blast
qed

lemma generate_random_system_props:
  assumes "1 \<le> n"
  shows "\<exists>S R C E. generate_random_system G env n = Inr (S, R, C, E)
           \<and> (\<forall>X\<in>set [S, R, C, E].
                length X = nat n \<and> Max (set X) = 1 \<and> (\<forall>v\<in>set X. 0 < v \<and> v \<le> 1))"
proof -
  let ?P = "\<lambda>X. length X = nat n \<and> Max (set X) = 1 \<and> (\<forall>v\<in>set X. 0 < v \<and> v \<le> 1)"
  from draw_normalize [OF assms, of G "from_seed G 42"] obtain s rng1 S
    where 1: "rng_random G n (from_seed G 42) = Inr (s, rng1)" "normalize s = Inr S" "?P S"
    by blast
  from draw_normalize [OF assms, of G rng1] obtain r rng2 R
    where 2: "rng_random G n rng1 = Inr (r, rng2)" "normalize r = Inr R" "?P R"
    by blast
  from draw_normalize [OF assms, of G rng2] obtain c rng3 C
    where 3: "rng_random G n rng2 = Inr (c, rng3)" "normalize c = Inr C" "?P C"
    by blast
  from draw_normalize [OF assms, of G rng3] obtain e rng4 E
    where 4: "rng_random G n rng3 = Inr (e, rng4)" "normalize e = Inr E" "?P E"
    by blast
  have "generate_random_system G env n = Inr (S, R, C, E)"
    unfolding generate_random_system_def default_rng_def Let_def
    by (simp add: and_then_Inr 1(1,2) 2(1,2) 3(1,2) 4(1,2))
  moreover have "\<forall>X\<in>set [S, R, C, E]. ?P X"
    using 1(3) 2(3) 3(3) 4(3) by (simp only: list.set ball_simps) blast
  ultimately show ?thesis
    by blast
qed

lemma singleton_one:
  fixes X :: "real list"
  assumes "length X = 1" and "Max (set X) = 1"
  shows "X = [1]"
proof -
  from assms(1) obtain a where X: "X = [a]"
    by (cases X) auto
  with assms(2) show ?thesis
    by simp
qed

lemma generate_random_system_one: "generate_random_system G env 1 = Inr ([1], [1], [1], [1])"
proof -
  have "(1::int) \<le> 1"
    by simp
  from generate_random_system_props [OF this, of G env] obtain S R C E
    where g: "generate_random_system G env 1 = Inr (S, R, C, E)"
      and p: "\<forall>X\<in>set [S, R, C, E]. length X = nat 1 \<and> Max (set X) = 1
                \<and> (\<forall>v\<in>set X. 0 < v \<and> v \<le> 1)"
    by blast
  from p have "S = [1]" "R = [1]" "C = [1]" "E = [1]"
    by (simp_all add: singleton_one)
  with g show ?thesis
    by simp
qed

lemma generate_random_system_negative:
  "n < 0 \<Longrightarrow> generate_random_system G env n = Inl NegativeDimensions"
  by (simp add: generate_random_system_def Let_def rng_random_negative and_then_Inl)

lemma generate_random_system_zero:
  "generate_random_system G env 0 = Inl ZeroSizeReduction"
  by (simp add: generate_random_system_def Let_def rng_random_zero normalize_Nil
      and_then_Inl and_then_Inr)

lemma pipeline_error:
  "generate_random_system G env n = Inl e \<Longrightarrow> pipeline G env n = Inl e"
  by (simp add: pipeline_def and_then_Inl)

text \<open>
  Claim C2. The generator is deterministic: the seed is the constant 42, so the result of
  \<open>generate_random_system\<close> at a length \<open>n\<close> is the same in every invocation, whatever
  the entropy of the operating system is at the time of the call.
\<close>

theorem generate_random_system_deterministic:
  "generate_random_system G env n = generate_random_system G env' n"
  by (simp add: generate_random_system_def default_rng_def)

text \<open>
  Claim C6 says that the four sequences returned by the generator have the requested
  length and elements in \<open>[0, 1)\<close>, none equal to 1. \<open>generate_random_system\<close> returns
  the normalized draws, and the maximum of a normalized sequence is 1: at length 1 each
  of the four sequences is \<open>[1]\<close>.
\<close>

theorem generate_random_system_reaches_one:
  "generate_random_system lcg64 0 1 = Inr ([1], [1], [1], [1])"
  by (rule generate_random_system_one)

text \<open>
  Claim C6, amended. For a length \<open>n \<ge> 1\<close>, each of the four sequences returned by
  \<open>generate_random_system\<close> has length \<open>n\<close>, its elements lie in \<open>(0, 1]\<close> and its maximum
  is exactly 1; the values in \<open>[0, 1)\<close> are those of the raw draws \<open>rng.random(n)\<close>, before
  normalization, which have length \<open>n\<close> too.
\<close>

theorem generate_random_system_range:
  "1 \<le> n \<Longrightarrow>
     (\<exists>S R C E. generate_random_system G env n = Inr (S, R, C, E)
        \<and> (\<forall>X\<in>set [S, R, C, E].
             length X = nat n \<and> Max (set X) = 1 \<and> (\<forall>v\<in>set X. 0 < v \<and> v \<le> 1)))
     \<and> (\<forall>st. \<exists>x st'. rng_random G n st = Inr (x, st') \<and> length x = nat n
           \<and> (\<forall>v\<in>set x. 0 \<le> v \<and> v < 1))"
proof -
  assume n: "1 \<le> n"
  then have "0 \<le> n"
    by simp
  then have "\<forall>st. \<exists>x st'. rng_random G n st = Inr (x, st') \<and> length x = nat n
           \<and> (\<forall>v\<in>set x. 0 \<le> v \<and> v < 1)"
    by (simp only: rng_random_props simp_thms)
  with generate_random_system_props [OF n, of G env] show ?thesis
    by (rule_tac conjI)
qed

theorem generate_random_system_range_witness:
  "(1::int) \<le> 2 \<and>
   (\<exists>S R C E. generate_random_system lcg64 0 2 = Inr (S, R, C, E)
        \<and> (\<forall>X\<in>set [S, R, C, E].
             length X = 2 \<and> Max (set X) = 1 \<and> (\<forall>v\<in>set X. 0 < v \<and> v \<le> 1)))
   \<and> (\<exists>x st'. rng_random lcg64 2 (from_seed lcg64 42) = Inr (x, st') \<and> length x = 2
           \<and> (\<forall>v\<in>set x. 0 \<le> v \<and> v < 1))"
  using generate_random_system_range [of 2 lcg64 0] by simp

text \<open>
  Claim C9. The length is not validated. For \<open>n \<le> 0\<close> the error is raised inside
  \<open>generate_random_system\<close>, so no later step of the pipeline runs, and the pipeline
  returns that same error. A negative \<open>n\<close> fails in the draw \<open>rng.random(n)\<close>; for \<open>n = 0\<close>
  the draw gives the empty array and the maximum in \<open>normalize\<close> fails, still inside
  \<open>generate_random_system\<close>.
\<close>

theorem invalid_length_fails_in_generator:
  "n \<le> 0 \<Longrightarrow>
     \<exists>e. generate_random_system G env n = Inl e \<and> pipeline G env n = Inl e
       \<and> (n < 0 \<longrightarrow> e = NegativeDimensions) \<and> (n = 0 \<longrightarrow> e = ZeroSizeReduction)"
proof (cases "n < 0")
  case True
  then show ?thesis
    by (simp add: generate_random_system_negative pipeline_error)
next
  case False
  assume "n \<le> 0"
  with False have "n = 0"
    by simp
  then show ?thesis
    by (simp add: generate_random_system_zero pipeline_error)
qed

theorem invalid_length_fails_in_generator_witness:
  "generate_random_system lcg64 0 0 = Inl ZeroSizeReduction
   \<and> pipeline lcg64 0 0 = Inl ZeroSizeReduction
   \<and> generate_random_system lcg64 0 (- 3) = Inl NegativeDimensions
   \<and> pipeline lcg64 0 (- 3) = Inl NegativeDimensions"
  using invalid_length_fails_in_generator [of 0 lcg64 0]
    invalid_length_fails_in_generator [of "- 3" lcg64 0]
  by auto

end

